theory Spec2Isabelle
  imports Main "HOL-Library.AList" "HOL-Library.Multiset"
begin

section \<open>JavaScript values of the node store\<close>

text \<open>
  The reducer of \<^verbatim>\<open>CR/Nodes/index.js\<close> works on dynamically typed data. The model
  types every attribute of a node record after the data model of the store and keeps the
  two ways in which a JavaScript attribute can be missing: \<open>Undefined\<close> (the key is absent,
  or reads as \<^verbatim>\<open>undefined\<close>) and \<open>Null\<close>.

  Numbers are the integers among JavaScript's numbers, or \<^verbatim>\<open>NaN\<close>: the indices of the
  content repository are integers. JavaScript's numbers are IEEE doubles, so a sum is
  rounded to the nearest number with 53 significant bits, to the even one of two
  equally near (\<open>round_double\<close>); up to 9007199254740992 every integer is such a number.
\<close>

datatype 'a js = Undefined | Null | Val 'a

datatype number = NaN | Num int

text \<open>\<^verbatim>\<open>ToNumber\<close> on an optional number: \<^verbatim>\<open>undefined\<close> is NaN and \<^verbatim>\<open>null\<close> is 0.\<close>

fun to_number :: "number js \<Rightarrow> number" where
  "to_number Undefined = NaN"
| "to_number Null = Num 0"
| "to_number (Val n) = n"

text \<open>The relational operators \<^verbatim>\<open><\<close> and \<^verbatim>\<open>>\<close>: false as soon as one side is NaN.\<close>

fun js_lt :: "number js \<Rightarrow> number js \<Rightarrow> bool" where
  "js_lt a b = (case (to_number a, to_number b) of (Num x, Num y) \<Rightarrow> x < y | _ \<Rightarrow> False)"

fun js_gt :: "number js \<Rightarrow> number js \<Rightarrow> bool" where
  "js_gt a b = (case (to_number a, to_number b) of (Num x, Num y) \<Rightarrow> x > y | _ \<Rightarrow> False)"

text \<open>The number of binary digits of a positive integer.\<close>

function bit_length :: "int \<Rightarrow> nat" where
  "bit_length n = (if n \<le> 0 then 0 else Suc (bit_length (n div 2)))"
  by pat_completeness auto
termination
  by (relation "measure nat") auto

text \<open>
  The double nearest to an integer: beyond 53 binary digits the last \<open>e\<close> digits are
  rounded away, upwards when they are more than half of \<open>2 ^ e\<close>, or exactly half and the
  digit before them is odd.
\<close>

definition round_double :: "int \<Rightarrow> int" where
  "round_double x =
     (if \<bar>x\<bar> \<le> 9007199254740992 then x
      else let e = bit_length \<bar>x\<bar> - 53;
               q = \<bar>x\<bar> div 2 ^ e;
               r = \<bar>x\<bar> mod 2 ^ e;
               q' = (if 2 * r > 2 ^ e \<or> (2 * r = 2 ^ e \<and> odd q) then q + 1 else q)
           in sgn x * (q' * 2 ^ e))"

text \<open>\<^verbatim>\<open>x - 1\<close> and \<^verbatim>\<open>x + 1\<close> on an optional number.\<close>

fun js_minus_one :: "number js \<Rightarrow> number" where
  "js_minus_one v = (case to_number v of Num x \<Rightarrow> Num (round_double (x - 1)) | NaN \<Rightarrow> NaN)"

fun js_plus_one :: "number js \<Rightarrow> number" where
  "js_plus_one v = (case to_number v of Num x \<Rightarrow> Num (round_double (x + 1)) | NaN \<Rightarrow> NaN)"

text \<open>
  A value used as a property key is converted to a string: \<^verbatim>\<open>nodes[undefined]\<close> reads
  the key \<^verbatim>\<open>"undefined"\<close>.
\<close>

fun key_of :: "string js \<Rightarrow> string" where
  "key_of Undefined = ''undefined''"
| "key_of Null = ''null''"
| "key_of (Val s) = s"

section \<open>Node records and the node map\<close>

text \<open>An entry of a \<^verbatim>\<open>children\<close> list: \<^verbatim>\<open>{contextPath, nodeType, index}\<close>.\<close>

record child =
  ref_contextPath :: string
  ref_nodeType :: "string option"
  ref_index :: "number js"

text \<open>
  The open \<^verbatim>\<open>properties\<close> mapping: the reducer never enumerates it, so it is a finite map
  without an order. Its values are atoms.
\<close>

datatype propval = PBool bool | PNum int | PStr string | PNull

record node =
  contextPath :: "string option"
  parentContextPath :: "string js"
  nodeType :: "string option"
  index :: "number js"
  properties :: "(string \<rightharpoonup> propval) option"
  uri :: "string option"
  children :: "child list option"

text \<open>
  \<^verbatim>\<open>byContextPath\<close>: an object (or an Immutable map) from context paths to node records,
  as the list of its entries in the order in which \<^verbatim>\<open>Object.keys\<close> enumerates them. The
  keys of an object are distinct, and none of them is written as an array index.
  Writing an existing key keeps its position and a new key goes last (\<open>AList.update\<close>).
  The conversions \<^verbatim>\<open>Immutable.fromJS\<close> and \<^verbatim>\<open>toJS\<close> between the two forms keep the
  entries. The order of the model is the one of the maps that Immutable stores as arrays
  of entries, those of up to eight keys: a new key goes last, and the last key takes the
  place of a deleted one. A larger Immutable map enumerates its keys in an order fixed by
  their hashes, where a new key need not go last; the model does not follow that order.
\<close>

type_synonym nodemap = "(string \<times> node) list"

section \<open>The Child Index Builder\<close>

text \<open>The comparator passed to \<^verbatim>\<open>children.sort\<close>.\<close>

definition compare_index :: "child \<Rightarrow> child \<Rightarrow> int" where
  "compare_index a b =
     (let aIndex = ref_index a; bIndex = ref_index b
      in if js_lt aIndex bIndex then - 1
         else if js_gt aIndex bIndex then 1
         else 0)"

text \<open>
  \<^verbatim>\<open>Array.prototype.sort\<close> is a stable sort (ECMAScript 2019): here insertion sort, where
  an element stays in front of the later elements that the comparator does not put before
  it. All stable sorts agree where the comparator is an order, which it is on numbers.
  Where an index is NaN or missing the comparator is not an order and the language
  leaves the result to the engine; this sort is one possible engine.
\<close>

fun insert_sorted :: "('a \<Rightarrow> 'a \<Rightarrow> int) \<Rightarrow> 'a \<Rightarrow> 'a list \<Rightarrow> 'a list" where
  "insert_sorted cmp x [] = [x]"
| "insert_sorted cmp x (y # ys) =
     (if cmp x y \<le> 0 then x # y # ys else y # insert_sorted cmp x ys)"

definition array_sort :: "('a \<Rightarrow> 'a \<Rightarrow> int) \<Rightarrow> 'a list \<Rightarrow> 'a list" where
  "array_sort cmp xs = foldr (insert_sorted cmp) xs []"

text \<open>First loop: \<^verbatim>\<open>node.children = []\<close> for every key.\<close>

definition clear_children :: "nodemap \<Rightarrow> nodemap" where
  "clear_children nodes = map (\<lambda>(cp, node). (cp, node\<lparr>children := Some []\<rparr>)) nodes"

text \<open>
  Second loop, one key: the node's reference is pushed onto the children of
  \<^verbatim>\<open>nodes[node.parentContextPath]\<close>, when that is a node whose \<^verbatim>\<open>children\<close> is an array.
\<close>

definition child_of :: "string \<Rightarrow> node \<Rightarrow> child" where
  "child_of cp node =
     \<lparr>ref_contextPath = cp, ref_nodeType = nodeType node, ref_index = index node\<rparr>"

definition push_child :: "nodemap \<Rightarrow> string \<Rightarrow> nodemap" where
  "push_child nodes cp =
     (case map_of nodes cp of
        None \<Rightarrow> nodes
      | Some node \<Rightarrow>
          (case map_of nodes (key_of (parentContextPath node)) of
             None \<Rightarrow> nodes
           | Some parentNode \<Rightarrow>
               (case children parentNode of
                  None \<Rightarrow> nodes
                | Some cs \<Rightarrow>
                    AList.update (key_of (parentContextPath node))
                      (parentNode\<lparr>children := Some (cs @ [child_of cp node])\<rparr>) nodes)))"

definition push_children :: "nodemap \<Rightarrow> nodemap" where
  "push_children nodes = foldl push_child nodes (map fst nodes)"

text \<open>Third loop: every \<^verbatim>\<open>children\<close> array is sorted by index.\<close>

definition sort_children :: "nodemap \<Rightarrow> nodemap" where
  "sort_children nodes =
     map (\<lambda>(cp, node).
           (cp, node\<lparr>children := map_option (array_sort compare_index) (children node)\<rparr>)) nodes"

definition populateChildren :: "nodemap \<Rightarrow> nodemap" where
  "populateChildren nodes = sort_children (push_children (clear_children nodes))"


section \<open>The store and its operations\<close>

record focus =
  focusContextPath :: string
  fusionPath :: "string option"

text \<open>
  The part of the application state the reducer reads and writes: \<^verbatim>\<open>cr.nodes\<close>, and
  \<^verbatim>\<open>ui.contentCanvas.contextPath\<close>, which \<^verbatim>\<open>SWITCH_DIMENSION\<close> sets.
\<close>

record store =
  byContextPath :: nodemap
  siteNode :: string
  focused :: focus
  toBeRemoved :: string
  clipboard :: string
  clipboardMode :: string
  contentCanvasContextPath :: string

text \<open>The payload of \<^verbatim>\<open>INIT\<close>: the state the server delivers, where both reads may find nothing.\<close>

record init_payload =
  initByContextPath :: "nodemap option"
  initSiteNode :: "string option"

datatype action =
    INIT init_payload
  | ADD nodemap
  | MOVE string string string
  | FOCUS string "string option"
  | UNFOCUS
  | COMMENCE_REMOVAL string
  | REMOVAL_ABORTED
  | REMOVAL_CONFIRMED
  | REMOVE string
  | SWITCH_DIMENSION string string nodemap
  | COPY string
  | CUT string
  | PASTE
  | HIDE string
  | SHOW string
  | UPDATE_URI string string

datatype error = TypeError

subsection \<open>Library functions: writing and merging\<close>

text \<open>
  The reducer calls plow-js and Immutable. Their functions are modelled on the typed
  records by what they are documented to do on the Immutable maps of the store.
\<close>

text \<open>
  \<^verbatim>\<open>$set\<close> of plow-js on the path \<^verbatim>\<open>['cr', 'nodes', 'byContextPath', contextPath, field]\<close>:
  the path is written as Immutable's \<^verbatim>\<open>setIn\<close> writes it, and a key that is missing on the
  way is created. A record created so has the written attribute and no other.
\<close>

definition empty_node :: node where
  "empty_node = \<lparr>contextPath = None, parentContextPath = Undefined, nodeType = None,
     index = Undefined, properties = None, uri = None, children = None\<rparr>"

definition set_in_node :: "string \<Rightarrow> (node \<Rightarrow> node) \<Rightarrow> nodemap \<Rightarrow> nodemap" where
  "set_in_node cp f nodes =
     AList.update cp (f (case map_of nodes cp of None \<Rightarrow> empty_node | Some node \<Rightarrow> node)) nodes"

text \<open>\<^verbatim>\<open>JSON.parse(JSON.stringify(nodeMap))\<close>: a NaN becomes \<^verbatim>\<open>null\<close>.\<close>

fun json_number :: "number js \<Rightarrow> number js" where
  "json_number (Val NaN) = Null"
| "json_number v = v"

definition json_node :: "node \<Rightarrow> node" where
  "json_node node = node\<lparr>index := json_number (index node),
     children := map_option (map (\<lambda>c. c\<lparr>ref_index := json_number (ref_index c)\<rparr>)) (children node)\<rparr>"

text \<open>
  \<^verbatim>\<open>$merge\<close> of plow-js is Immutable's \<^verbatim>\<open>mergeDeep\<close>. On a record it keeps every attribute
  the incoming record does not have and takes the incoming value of the others, merging
  again where both values are collections: \<^verbatim>\<open>properties\<close> key by key, and the \<^verbatim>\<open>children\<close>
  lists position by position.
\<close>

definition merge_children :: "child list \<Rightarrow> child list \<Rightarrow> child list" where
  "merge_children old new = new @ drop (length new) old"

definition merge_node :: "node \<Rightarrow> node \<Rightarrow> node" where
  "merge_node old new =
     \<lparr>contextPath = (case contextPath new of None \<Rightarrow> contextPath old | Some v \<Rightarrow> Some v),
      parentContextPath = (case parentContextPath new of Undefined \<Rightarrow> parentContextPath old | v \<Rightarrow> v),
      nodeType = (case nodeType new of None \<Rightarrow> nodeType old | Some v \<Rightarrow> Some v),
      index = (case index new of Undefined \<Rightarrow> index old | v \<Rightarrow> v),
      properties = (case properties new of None \<Rightarrow> properties old
                    | Some ps \<Rightarrow> (case properties old of None \<Rightarrow> Some ps | Some qs \<Rightarrow> Some (qs ++ ps))),
      uri = (case uri new of None \<Rightarrow> uri old | Some v \<Rightarrow> Some v),
      children = (case children new of None \<Rightarrow> children old
                  | Some cs \<Rightarrow> (case children old of None \<Rightarrow> Some cs
                                | Some ds \<Rightarrow> Some (merge_children ds cs)))\<rparr>"

definition merge_entry :: "nodemap \<Rightarrow> string \<times> node \<Rightarrow> nodemap" where
  "merge_entry nodes e =
     AList.update (fst e)
       (case map_of nodes (fst e) of None \<Rightarrow> snd e | Some existing \<Rightarrow> merge_node existing (snd e)) nodes"

definition merge_deep :: "nodemap \<Rightarrow> nodemap \<Rightarrow> nodemap" where
  "merge_deep nodes incoming = foldl merge_entry nodes incoming"

subsection \<open>Library functions: strings\<close>

fun starts_with :: "string \<Rightarrow> string \<Rightarrow> bool" where
  "starts_with s [] = True"
| "starts_with [] (p # ps) = False"
| "starts_with (c # cs) (p # ps) = (c = p \<and> starts_with cs ps)"

text \<open>\<^verbatim>\<open>String.prototype.includes\<close>.\<close>

fun str_includes :: "string \<Rightarrow> string \<Rightarrow> bool" where
  "str_includes [] pat = starts_with [] pat"
| "str_includes (c # cs) pat = (starts_with (c # cs) pat \<or> str_includes cs pat)"

text \<open>
  The replacement text of \<^verbatim>\<open>String.prototype.replace\<close> (\<^verbatim>\<open>GetSubstitution\<close> for a string
  pattern, which captures nothing): \<^verbatim>\<open>$$\<close> is a dollar sign, \<^verbatim>\<open>$&\<close> the match, \<^verbatim>\<open>$`\<close> the
  text before the match and \<^verbatim>\<open>$'\<close> the text after it.
\<close>

fun get_substitution :: "string \<Rightarrow> string \<Rightarrow> string \<Rightarrow> string \<Rightarrow> string" where
  "get_substitution matched before after [] = []"
| "get_substitution matched before after [c] = [c]"
| "get_substitution matched before after (c # d # r) =
     (if c = CHR ''$'' \<and> d = CHR ''$'' then CHR ''$'' # get_substitution matched before after r
      else if c = CHR ''$'' \<and> d = CHR ''&'' then matched @ get_substitution matched before after r
      else if c = CHR ''$'' \<and> d = CHR 0x60 then before @ get_substitution matched before after r
      else if c = CHR ''$'' \<and> d = CHR 0x27 then after @ get_substitution matched before after r
      else c # get_substitution matched before after (d # r))"

text \<open>
  \<^verbatim>\<open>s.replace(pat, rep)\<close> with a string pattern replaces the first occurrence of the
  pattern only, and returns \<open>s\<close> when there is none.
\<close>

fun replace_from :: "string \<Rightarrow> string \<Rightarrow> string \<Rightarrow> string \<Rightarrow> string" where
  "replace_from before [] pat rep =
     (if starts_with [] pat then before @ get_substitution pat before [] rep else before)"
| "replace_from before (c # cs) pat rep =
     (if starts_with (c # cs) pat
      then before @ get_substitution pat before (drop (length pat) (c # cs)) rep
             @ drop (length pat) (c # cs)
      else replace_from (before @ [c]) cs pat rep)"

definition replace :: "string \<Rightarrow> string \<Rightarrow> string \<Rightarrow> string" where
  "replace s pat rep = replace_from [] s pat rep"

subsection \<open>The handlers of the reducer\<close>

text \<open>
  \<^verbatim>\<open>INIT\<close>: \<^verbatim>\<open>populateChildren\<close> is called on what \<^verbatim>\<open>$get('cr.nodes.byContextPath', state)\<close>
  returns, and \<^verbatim>\<open>Object.keys(undefined)\<close> throws a TypeError; the alternative
  \<^verbatim>\<open>|| new Map()\<close> is evaluated after that call only.
\<close>

definition reduce_init :: "init_payload \<Rightarrow> store \<Rightarrow> error + store" where
  "reduce_init payload state =
     (case initByContextPath payload of
        None \<Rightarrow> Inl TypeError
      | Some nodes \<Rightarrow>
          Inr (state\<lparr>byContextPath := populateChildren nodes,
                 siteNode := (case initSiteNode payload of None \<Rightarrow> '''' | Some site \<Rightarrow> site),
                 focused := \<lparr>focusContextPath = '''', fusionPath = Some ''''\<rparr>,
                 toBeRemoved := '''',
                 clipboard := '''',
                 clipboardMode := ''''\<rparr>))"

definition reduce_add :: "nodemap \<Rightarrow> store \<Rightarrow> store" where
  "reduce_add nodeMap state =
     (let updatedNodes = merge_deep (byContextPath state) (map (\<lambda>(cp, node). (cp, json_node node)) nodeMap);
          processedCrNodes = populateChildren updatedNodes
      in state\<lparr>byContextPath := processedCrNodes\<rparr>)"

text \<open>
  \<^verbatim>\<open>MOVE\<close>. The helper \<^verbatim>\<open>parentNodeContextPath\<close> of \<^verbatim>\<open>./helpers\<close> is a parameter of the
  reducer: it computes the base node of a context path from the path alone.
\<close>

definition reduce_move :: "(string \<Rightarrow> string js) \<Rightarrow> string \<Rightarrow> string \<Rightarrow> string \<Rightarrow> store \<Rightarrow> store" where
  "reduce_move parentNodeContextPath sourceNodeContextPath targetNodeContextPath position state =
     (let targetNodeIndex =
            (case map_of (byContextPath state) targetNodeContextPath of
               None \<Rightarrow> Undefined | Some targetNode \<Rightarrow> index targetNode);
          newIndex =
            (if position = ''into'' then Num 9007199254740991
             else if position = ''before'' then js_minus_one targetNodeIndex
             else js_plus_one targetNodeIndex);
          state1 = state\<lparr>byContextPath :=
            set_in_node sourceNodeContextPath (\<lambda>node. node\<lparr>index := Val newIndex\<rparr>) (byContextPath state)\<rparr>;
          baseNodeContextPath =
            (if position = ''into'' then Val targetNodeContextPath
             else parentNodeContextPath targetNodeContextPath);
          state2 = state1\<lparr>byContextPath :=
            set_in_node sourceNodeContextPath (\<lambda>node. node\<lparr>parentContextPath := baseNodeContextPath\<rparr>)
              (byContextPath state1)\<rparr>;
          processedCrNodes = populateChildren (byContextPath state2)
      in state2\<lparr>byContextPath := processedCrNodes\<rparr>)"

text \<open>
  \<^verbatim>\<open>$drop\<close> deletes the key; a key that is not there is not an error. An Immutable map
  stored as an array of entries puts its last entry in the place of the deleted one.
\<close>

definition remove_key :: "string \<Rightarrow> nodemap \<Rightarrow> nodemap" where
  "remove_key cp nodes =
     (let before = takeWhile (\<lambda>e. fst e \<noteq> cp) nodes
      in case dropWhile (\<lambda>e. fst e \<noteq> cp) nodes of
           [] \<Rightarrow> nodes
         | e # rest \<Rightarrow> if rest = [] then before else before @ last rest # butlast rest)"

definition reduce_remove :: "string \<Rightarrow> store \<Rightarrow> store" where
  "reduce_remove cp state = state\<lparr>byContextPath := remove_key cp (byContextPath state)\<rparr>"

definition reduce_switch_dimension :: "string \<Rightarrow> string \<Rightarrow> nodemap \<Rightarrow> store \<Rightarrow> store" where
  "reduce_switch_dimension siteNodeContextPath documentNodeContextPath nodes state =
     state\<lparr>siteNode := siteNodeContextPath,
           contentCanvasContextPath := documentNodeContextPath,
           focused := \<lparr>focusContextPath = '''', fusionPath = Some ''''\<rparr>,
           byContextPath := merge_deep (byContextPath state) (populateChildren nodes)\<rparr>"

definition set_hidden :: "bool \<Rightarrow> string \<Rightarrow> store \<Rightarrow> store" where
  "set_hidden hidden cp state =
     state\<lparr>byContextPath :=
       set_in_node cp
         (\<lambda>node. node\<lparr>properties :=
            Some ((case properties node of None \<Rightarrow> Map.empty | Some ps \<Rightarrow> ps)(''_hidden'' \<mapsto> PBool hidden))\<rparr>)
         (byContextPath state)\<rparr>"

text \<open>
  \<^verbatim>\<open>UPDATE_URI\<close>: every node of the map gives either a write of its new uri, under the
  node's own \<^verbatim>\<open>contextPath\<close> attribute, or \<^verbatim>\<open>null\<close>; \<^verbatim>\<open>$all\<close> runs the writes in turn.
  A node without that attribute is written under the key \<^verbatim>\<open>undefined\<close>, which becomes the
  string key of \<open>key_of\<close> in the next conversion to an object; the keys of the model are
  strings, so it is that key here at once.
\<close>

definition uri_write :: "string \<Rightarrow> string \<Rightarrow> node \<Rightarrow> (string \<times> string) option" where
  "uri_write oldUriFragment newUriFragment node =
     (case uri node of
        None \<Rightarrow> None
      | Some nodeUri \<Rightarrow>
          if nodeUri \<noteq> [] \<and>
             (str_includes nodeUri (oldUriFragment @ ''/'') \<or> str_includes nodeUri (oldUriFragment @ ''@''))
          then Some (case contextPath node of None \<Rightarrow> key_of Undefined | Some cp \<Rightarrow> cp,
                     replace (replace nodeUri (oldUriFragment @ ''@'') (newUriFragment @ ''@''))
                       (oldUriFragment @ ''/'') (newUriFragment @ ''/''))
          else None)"

definition set_uri :: "nodemap \<Rightarrow> string \<times> string \<Rightarrow> nodemap" where
  "set_uri nodes w = set_in_node (fst w) (\<lambda>node. node\<lparr>uri := Some (snd w)\<rparr>) nodes"

definition reduce_update_uri :: "string \<Rightarrow> string \<Rightarrow> store \<Rightarrow> store" where
  "reduce_update_uri oldUriFragment newUriFragment state =
     (let allNodes = byContextPath state;
          writes = List.map_filter (\<lambda>(cp, node). uri_write oldUriFragment newUriFragment node) allNodes
      in state\<lparr>byContextPath := foldl set_uri allNodes writes\<rparr>)"

text \<open>
  Modelled from the spec: \<^verbatim>\<open>handleActions\<close> of \<^verbatim>\<open>@neos-project/utils-redux\<close> is not among the
  sources. By the spec each operation consumes the current snapshot and its payload and
  returns a new snapshot: the handler of the action's type is applied to the payload and
  the state. An exception of a handler is the result \<open>Inl\<close>.
\<close>

fun reducer :: "(string \<Rightarrow> string js) \<Rightarrow> action \<Rightarrow> store \<Rightarrow> error + store" where
  "reducer pncp (INIT payload) state = reduce_init payload state"
| "reducer pncp (ADD nodeMap) state = Inr (reduce_add nodeMap state)"
| "reducer pncp (MOVE nodeToBeMoved targetNode position) state =
     Inr (reduce_move pncp nodeToBeMoved targetNode position state)"
| "reducer pncp (FOCUS cp fp) state = Inr (state\<lparr>focused := \<lparr>focusContextPath = cp, fusionPath = fp\<rparr>\<rparr>)"
| "reducer pncp UNFOCUS state = Inr (state\<lparr>focused := \<lparr>focusContextPath = '''', fusionPath = Some ''''\<rparr>\<rparr>)"
| "reducer pncp (COMMENCE_REMOVAL cp) state = Inr (state\<lparr>toBeRemoved := cp\<rparr>)"
| "reducer pncp REMOVAL_ABORTED state = Inr (state\<lparr>toBeRemoved := ''''\<rparr>)"
| "reducer pncp REMOVAL_CONFIRMED state = Inr (state\<lparr>toBeRemoved := ''''\<rparr>)"
| "reducer pncp (REMOVE cp) state = Inr (reduce_remove cp state)"
| "reducer pncp (SWITCH_DIMENSION site document nodes) state =
     Inr (reduce_switch_dimension site document nodes state)"
| "reducer pncp (COPY cp) state = Inr (state\<lparr>clipboard := cp, clipboardMode := ''Copy''\<rparr>)"
| "reducer pncp (CUT cp) state = Inr (state\<lparr>clipboard := cp, clipboardMode := ''Move''\<rparr>)"
| "reducer pncp PASTE state = Inr (state\<lparr>clipboard := ''''\<rparr>)"
| "reducer pncp (HIDE cp) state = Inr (set_hidden True cp state)"
| "reducer pncp (SHOW cp) state = Inr (set_hidden False cp state)"
| "reducer pncp (UPDATE_URI oldUriFragment newUriFragment) state =
     Inr (reduce_update_uri oldUriFragment newUriFragment state)"

section \<open>Notions of the statements\<close>



text \<open>
  The references that the second loop of the builder has pushed onto the children of \<open>p\<close>
  once it has visited the keys \<open>ks\<close>, and a node map with given children lists.
\<close>

definition pushed :: "nodemap \<Rightarrow> string list \<Rightarrow> string \<Rightarrow> child list" where
  "pushed nodes ks p =
     concat (map (\<lambda>k. case map_of nodes k of
                         None \<Rightarrow> []
                       | Some n \<Rightarrow> if key_of (parentContextPath n) = p then [child_of k n] else []) ks)"

definition with_children :: "nodemap \<Rightarrow> (string \<Rightarrow> child list) \<Rightarrow> nodemap" where
  "with_children nodes f = map (\<lambda>(k, n). (k, n\<lparr>children := Some (f k)\<rparr>)) nodes"


text \<open>The actions that create or destroy node records, by the lifecycle of the store.\<close>

fun creates_or_destroys :: "action \<Rightarrow> bool" where
  "creates_or_destroys (INIT payload) = True"
| "creates_or_destroys (ADD nodeMap) = True"
| "creates_or_destroys (SWITCH_DIMENSION site document nodes) = True"
| "creates_or_destroys (REMOVE cp) = True"
| "creates_or_destroys a = False"

text \<open>The context paths under which the other actions write an attribute of a node.\<close>

fun written_paths :: "action \<Rightarrow> store \<Rightarrow> string list" where
  "written_paths (MOVE nodeToBeMoved targetNode position) state = [nodeToBeMoved]"
| "written_paths (HIDE cp) state = [cp]"
| "written_paths (SHOW cp) state = [cp]"
| "written_paths (UPDATE_URI oldUriFragment newUriFragment) state =
     map fst (List.map_filter (\<lambda>(cp, node). uri_write oldUriFragment newUriFragment node)
       (byContextPath state))"
| "written_paths a state = []"

section \<open>Sample data\<close>

text \<open>A record as the server delivers it, before the builder has run.\<close>

definition sample_node :: "string \<Rightarrow> string js \<Rightarrow> int \<Rightarrow> node" where
  "sample_node cp parent i =
     \<lparr>contextPath = Some cp, parentContextPath = parent, nodeType = Some ''Page'',
      index = Val (Num i), properties = None, uri = None, children = None\<rparr>"


text \<open>A store with the given node map and nothing focused, marked or on the clipboard.\<close>

definition store_of :: "nodemap \<Rightarrow> store" where
  "store_of nodes = \<lparr>byContextPath = nodes, siteNode = '''',
     focused = \<lparr>focusContextPath = '''', fusionPath = Some ''''\<rparr>, toBeRemoved = '''',
     clipboard = '''', clipboardMode = '''', contentCanvasContextPath = ''''\<rparr>"

text \<open>The siblings A, B and C with the indices 1, 2 and 3 under the parent P.\<close>

definition siblings :: nodemap where
  "siblings =
     [(''/p@live'', sample_node ''/p@live'' Undefined 0),
      (''/p/a@live'', sample_node ''/p/a@live'' (Val ''/p@live'') 1),
      (''/p/b@live'', sample_node ''/p/b@live'' (Val ''/p@live'') 2),
      (''/p/c@live'', sample_node ''/p/c@live'' (Val ''/p@live'') 3)]"

definition child_ref :: "string \<Rightarrow> int \<Rightarrow> child" where
  "child_ref cp i = \<lparr>ref_contextPath = cp, ref_nodeType = Some ''Page'', ref_index = Val (Num i)\<rparr>"


text \<open>Document nodes with a uri.\<close>

definition document_node :: "string \<Rightarrow> string \<Rightarrow> node" where
  "document_node cp u = (sample_node cp Undefined 0)\<lparr>uri := Some u\<rparr>"

definition shop_nodes :: nodemap where
  "shop_nodes =
     [(''/sites/shop/shoes@live'', document_node ''/sites/shop/shoes@live'' ''/shop/shoes@live''),
      (''/sites/shop/shoes/red@live'', document_node ''/sites/shop/shoes/red@live'' ''/shop/shoes/red@live''),
      (''/sites/shop/shoeshine@live'', document_node ''/sites/shop/shoeshine@live'' ''/shop/shoeshine@live'')]"

definition nested_shop_nodes :: nodemap where
  "nested_shop_nodes =
     [(''/sites/shop/shop/x@live'', document_node ''/sites/shop/shop/x@live'' ''/shop/shop/x@live'')]"

text \<open>A helper \<^verbatim>\<open>parentNodeContextPath\<close> for the samples: it gives P for every path.\<close>

definition parent_p :: "string \<Rightarrow> string js" where
  "parent_p cp = Val ''/p@live''"

text \<open>A payload of \<^verbatim>\<open>ADD\<close>: a new index for A, and a new node D under P.\<close>

definition sample_payload :: nodemap where
  "sample_payload =
     [(''/p/a@live'', sample_node ''/p/a@live'' (Val ''/p@live'') 7),
      (''/p/d@live'', sample_node ''/p/d@live'' (Val ''/p@live'') 4)]"

section \<open>The sort of the builder\<close>

lemma set_insert_sorted: "set (insert_sorted cmp x ys) = insert x (set ys)"
  by (induction ys) auto

lemma set_array_sort: "set (array_sort cmp xs) = set xs"
  by (induction xs) (auto simp: array_sort_def set_insert_sorted)



section \<open>What the builder computes\<close>

lemma map_of_with_children:
  "map_of (with_children nodes f) k = map_option (\<lambda>n. n\<lparr>children := Some (f k)\<rparr>) (map_of nodes k)"
  by (induction nodes) (auto simp: with_children_def)

lemma with_children_cong:
  "(\<And>k. k \<in> fst ` set nodes \<Longrightarrow> f k = g k) \<Longrightarrow> with_children nodes f = with_children nodes g"
  by (auto simp: with_children_def intro!: map_cong) force

lemma update_with_children:
  assumes "map_of nodes p = Some n" "distinct (map fst nodes)"
  shows "AList.update p (n\<lparr>children := Some cs\<rparr>) (with_children nodes f)
     = with_children nodes (f(p := cs))"
  using assms
proof (induction nodes)
  case Nil
  then show ?case by simp
next
  case (Cons e nodes)
  obtain k m where e: "e = (k, m)" by (cases e)
  show ?case
  proof (cases "k = p")
    case True
    with Cons.prems e have m: "m = n" by simp
    have "p \<notin> fst ` set nodes" using Cons.prems e True by auto
    then have "with_children nodes f = with_children nodes (f(p := cs))"
      by (intro with_children_cong) auto
    then show ?thesis using True e m by (simp add: with_children_def)
  next
    case False
    then show ?thesis using Cons e by (simp add: with_children_def)
  qed
qed

lemma push_child_with_children:
  assumes "distinct (map fst nodes)"
  shows "push_child (with_children nodes f) k = with_children nodes (\<lambda>p. f p @ pushed nodes [k] p)"
proof (cases "map_of nodes k")
  case None
  then show ?thesis
    by (simp add: push_child_def map_of_with_children pushed_def)
next
  case (Some n)
  note node = this
  let ?p = "key_of (parentContextPath n)"
  show ?thesis
  proof (cases "map_of nodes ?p")
    case None
    then have "?p \<notin> fst ` set nodes" by (simp add: map_of_eq_None_iff)
    then have "with_children nodes f = with_children nodes (\<lambda>p. f p @ pushed nodes [k] p)"
      using node by (intro with_children_cong) (auto simp: pushed_def)
    then show ?thesis using node None
      by (simp add: push_child_def map_of_with_children)
  next
    case (Some pn)
    have "push_child (with_children nodes f) k
        = AList.update ?p (pn\<lparr>children := Some (f ?p @ [child_of k n])\<rparr>) (with_children nodes f)"
      using Some node by (simp add: push_child_def map_of_with_children child_of_def)
    also have "\<dots> = with_children nodes (f(?p := f ?p @ [child_of k n]))"
      using update_with_children [OF Some assms] by simp
    also have "\<dots> = with_children nodes (\<lambda>p. f p @ pushed nodes [k] p)"
      using node by (intro with_children_cong) (auto simp: pushed_def)
    finally show ?thesis .
  qed
qed

lemma pushed_append: "pushed nodes (ks @ ks') p = pushed nodes ks p @ pushed nodes ks' p"
  by (simp add: pushed_def)

lemma foldl_push_child:
  assumes "distinct (map fst nodes)"
  shows "foldl push_child (with_children nodes (\<lambda>_. [])) ks = with_children nodes (pushed nodes ks)"
proof (induction ks rule: rev_induct)
  case Nil
  then show ?case by (simp add: pushed_def)
next
  case (snoc k ks)
  then show ?case
    by (simp add: push_child_with_children [OF assms] pushed_append)
qed

lemma pushed_entries:
  assumes "distinct (map fst nodes)" "set es \<subseteq> set nodes"
  shows "pushed nodes (map fst es) p = [child_of k n. (k, n) \<leftarrow> es, key_of (parentContextPath n) = p]"
  using assms(2)
proof (induction es)
  case Nil
  then show ?case by (simp add: pushed_def)
next
  case (Cons e es)
  obtain k n where e: "e = (k, n)" by (cases e)
  then have "map_of nodes k = Some n" using Cons.prems assms(1) by simp
  then show ?case using Cons e by (simp add: pushed_def)
qed

lemma clear_children_with: "clear_children nodes = with_children nodes (\<lambda>_. [])"
  by (simp add: clear_children_def with_children_def)

lemma populateChildren_eq:
  assumes "distinct (map fst nodes)"
  shows "populateChildren nodes =
     map (\<lambda>(cp, node). (cp, node\<lparr>children := Some (array_sort compare_index
        [child_of k n. (k, n) \<leftarrow> nodes, key_of (parentContextPath n) = cp])\<rparr>)) nodes"
proof -
  have keys: "map fst (with_children nodes (\<lambda>_. [])) = map fst nodes"
    by (simp add: with_children_def case_prod_unfold comp_def)
  have "push_children (clear_children nodes) = with_children nodes (pushed nodes (map fst nodes))"
    unfolding push_children_def clear_children_with keys
    by (rule foldl_push_child [OF assms])
  then show ?thesis
    using pushed_entries [OF assms subset_refl]
    by (simp add: populateChildren_def sort_children_def with_children_def case_prod_unfold comp_def)
qed

section \<open>Writes into the node map\<close>

lemma set_in_node_twice:
  "set_in_node cp g (set_in_node cp f nodes) = set_in_node cp (g \<circ> f) nodes"
  by (simp add: set_in_node_def update_conv')

lemma distinct_set_in_node:
  "distinct (map fst nodes) \<Longrightarrow> distinct (map fst (set_in_node cp f nodes))"
  by (simp add: set_in_node_def distinct_update)

lemma map_of_set_in_node:
  "map_of (set_in_node cp f nodes) k =
     (if k = cp then Some (f (case map_of nodes cp of None \<Rightarrow> empty_node | Some n \<Rightarrow> n))
      else map_of nodes k)"
  by (simp add: set_in_node_def update_conv')

lemma populateChildren_keys:
  "distinct (map fst nodes) \<Longrightarrow> map fst (populateChildren nodes) = map fst nodes"
  by (simp add: populateChildren_eq case_prod_unfold comp_def)

lemma map_of_map_entries:
  "map_of (map (\<lambda>(k, n). (k, F k n)) nodes) k = map_option (F k) (map_of nodes k)"
  by (induction nodes) auto

lemma populateChildren_map_of:
  assumes "distinct (map fst nodes)"
  shows "map_of (populateChildren nodes) k =
     map_option (\<lambda>n. n\<lparr>children := Some (array_sort compare_index
        [child_of k' n'. (k', n') \<leftarrow> nodes, key_of (parentContextPath n') = k])\<rparr>) (map_of nodes k)"
  unfolding populateChildren_eq [OF assms]
  by (rule map_of_map_entries)

section \<open>The builder reads no children list\<close>

lemma populateChildren_cong:
  "clear_children nodes = clear_children nodes' \<Longrightarrow> populateChildren nodes = populateChildren nodes'"
  by (simp add: populateChildren_def)

lemma clear_populateChildren:
  assumes "distinct (map fst nodes)"
  shows "clear_children (populateChildren nodes) = clear_children nodes"
  unfolding populateChildren_eq [OF assms]
  by (simp add: clear_children_def case_prod_unfold comp_def)

lemma populateChildren_idem:
  "distinct (map fst nodes) \<Longrightarrow> populateChildren (populateChildren nodes) = populateChildren nodes"
  by (intro populateChildren_cong clear_populateChildren)

section \<open>Keys of the node map\<close>

lemma set_in_node_keys:
  "map fst (set_in_node cp f nodes) =
     (if cp \<in> set (map fst nodes) then map fst nodes else map fst nodes @ [cp])"
  by (simp add: set_in_node_def update_keys)

lemma keys_after_write:
  "ks' = (if k \<in> set ks then ks else ks @ [k]) \<Longrightarrow>
   set ks' = set ks \<union> set [k] \<and> (set [k] \<subseteq> set ks \<longrightarrow> ks' = ks)"
  by auto

lemma foldl_set_uri_keyset:
  "set (map fst (foldl set_uri nodes ws)) = set (map fst nodes) \<union> set (map fst ws)"
proof (induction ws arbitrary: nodes)
  case Nil
  then show ?case by simp
next
  case (Cons w ws)
  have "set (map fst (set_uri nodes w)) = insert (fst w) (set (map fst nodes))"
    unfolding set_uri_def set_in_node_keys by auto
  then show ?case
    unfolding foldl_Cons Cons.IH by auto
qed

lemma foldl_set_uri_keys:
  "set (map fst ws) \<subseteq> set (map fst nodes) \<Longrightarrow> map fst (foldl set_uri nodes ws) = map fst nodes"
proof (induction ws arbitrary: nodes)
  case Nil
  then show ?case by simp
next
  case (Cons w ws)
  then have w: "fst w \<in> set (map fst nodes)" and ws: "set (map fst ws) \<subseteq> set (map fst nodes)"
    by simp_all
  have same: "map fst (set_uri nodes w) = map fst nodes"
    unfolding set_uri_def set_in_node_keys using w by (simp only: if_True)
  have "map fst (foldl set_uri (set_uri nodes w) ws) = map fst (set_uri nodes w)"
    using ws by (intro Cons.IH) (simp only: same)
  then show ?case by (simp only: foldl_Cons same)
qed

lemma populateChildren_orphan:
  assumes "distinct (map fst nodes)" "(k, n) \<in> set nodes"
    and "key_of (parentContextPath n) \<notin> fst ` set nodes"
    and "(cp, node) \<in> set (populateChildren nodes)" "children node = Some cs"
  shows "k \<notin> ref_contextPath ` set cs"
proof
  assume "k \<in> ref_contextPath ` set cs"
  then obtain c where c: "c \<in> set cs" "ref_contextPath c = k" by auto
  from assms(4) obtain node0 where n0: "(cp, node0) \<in> set nodes"
    and "node = node0\<lparr>children := Some (array_sort compare_index
                [child_of k n. (k, n) \<leftarrow> nodes, key_of (parentContextPath n) = cp])\<rparr>"
    unfolding populateChildren_eq [OF assms(1)] by auto
  with assms(5) have "cs = array_sort compare_index
      [child_of k n. (k, n) \<leftarrow> nodes, key_of (parentContextPath n) = cp]"
    by simp
  with c obtain k' n' where "(k', n') \<in> set nodes" "key_of (parentContextPath n') = cp"
    "c = child_of k' n'"
    by (auto simp: set_array_sort)
  with c(2) have "(k, n') \<in> set nodes" "key_of (parentContextPath n') = cp"
    by (auto simp: child_of_def)
  with assms(1,2) have "n' = n" by (meson eq_key_imp_eq_value)
  with \<open>key_of (parentContextPath n') = cp\<close> n0 assms(3) show False by force
qed

section \<open>Merging node maps\<close>

lemma update_absent: "k \<notin> fst ` set al \<Longrightarrow> AList.update k v al = al @ [(k, v)]"
  by (induction al) auto

lemma update_present:
  "distinct (map fst al) \<Longrightarrow> map_of al k = Some n \<Longrightarrow>
   AList.update k v al = map (\<lambda>(k', n'). (k', if k' = k then v else n')) al"
proof (induction al)
  case Nil
  then show ?case by simp
next
  case (Cons e al)
  obtain k0 n0 where e: "e = (k0, n0)" by (cases e)
  show ?case
  proof (cases "k0 = k")
    case True
    then have "k \<notin> fst ` set al" using Cons.prems e by auto
    then have "map (\<lambda>(k', n'). (k', if k' = k then v else n')) al = al"
      by (induction al) auto
    then show ?thesis using True e by simp
  next
    case False
    then show ?thesis using Cons e by simp
  qed
qed

lemma merge_deep_eq:
  assumes "distinct (map fst incoming)" "distinct (map fst nodes)"
  shows "merge_deep nodes incoming =
     map (\<lambda>(k, n). (k, case map_of incoming k of None \<Rightarrow> n | Some v \<Rightarrow> merge_node n v)) nodes
     @ filter (\<lambda>(k, v). k \<notin> fst ` set nodes) incoming"
  using assms
proof (induction incoming arbitrary: nodes)
  case Nil
  then show ?case by (simp add: merge_deep_def case_prod_unfold)
next
  case (Cons e incoming)
  obtain k v where e: "e = (k, v)" by (cases e)
  have fresh: "k \<notin> fst ` set incoming" and d: "distinct (map fst incoming)"
    using Cons.prems(1) e by auto
  then have none: "map_of incoming k = None" by (simp add: map_of_eq_None_iff)
  have unfold: "merge_deep nodes (e # incoming) = merge_deep (merge_entry nodes e) incoming"
    by (simp add: merge_deep_def)
  show ?case
  proof (cases "map_of nodes k")
    case None
    then have notin: "k \<notin> fst ` set nodes" by (simp add: map_of_eq_None_iff)
    then have step: "merge_entry nodes e = nodes @ [(k, v)]"
      using None e by (simp add: merge_entry_def update_absent)
    have d': "distinct (map fst (nodes @ [(k, v)]))"
      using Cons.prems(2) notin by auto
    have a: "map (\<lambda>(k', n). (k', case map_of incoming k' of None \<Rightarrow> n | Some v \<Rightarrow> merge_node n v)) nodes
        = map (\<lambda>(k', n). (k', case map_of (e # incoming) k' of None \<Rightarrow> n | Some v \<Rightarrow> merge_node n v)) nodes"
      using notin e by (intro map_cong) (auto simp: image_iff)
    have b: "filter (\<lambda>(k', v). k' \<notin> fst ` set (nodes @ [(k, v)])) incoming
        = filter (\<lambda>(k', v). k' \<notin> fst ` set nodes) incoming"
      using fresh by (intro filter_cong) (auto simp: image_iff)
    show ?thesis
      unfolding unfold step Cons.IH [OF d d']
      using a b none notin e by simp
  next
    case (Some n)
    then have isin: "k \<in> fst ` set nodes" by (metis map_of_eq_None_iff option.distinct(1))
    have step: "merge_entry nodes e = map (\<lambda>(k', n'). (k', if k' = k then merge_node n v else n')) nodes"
      using Some e Cons.prems(2) by (simp add: merge_entry_def update_present)
    have keys: "map fst (merge_entry nodes e) = map fst nodes"
      unfolding step by (simp add: case_prod_unfold comp_def)
    then have d': "distinct (map fst (merge_entry nodes e))"
      using Cons.prems(2) by simp
    have keyset: "fst ` set (merge_entry nodes e) = fst ` set nodes"
      using keys by (metis set_map)
    have a: "map (\<lambda>(k', n). (k', case map_of incoming k' of None \<Rightarrow> n | Some v \<Rightarrow> merge_node n v))
          (merge_entry nodes e)
        = map (\<lambda>(k', n). (k', case map_of (e # incoming) k' of None \<Rightarrow> n | Some v \<Rightarrow> merge_node n v)) nodes"
    proof -
      have "(k', n') \<in> set nodes \<Longrightarrow> k' = k \<Longrightarrow> n' = n" for k' n'
        using Some Cons.prems(2) by simp
      then show ?thesis
        unfolding step using none e by (auto simp: comp_def)
    qed
    show ?thesis
      unfolding unfold Cons.IH [OF d d'] a keyset
      using isin e by simp
  qed
qed

lemma map_add_same: "m ++ m = m"
  by (rule ext) (simp add: map_add_def split: option.splits)

lemma map_add_twice: "(m ++ m') ++ m' = m ++ m'"
  by (rule ext) (simp add: map_add_def split: option.splits)

lemma merge_node_absorbs_merged:
  "(merge_node ((merge_node n v)\<lparr>children := c\<rparr>) v)\<lparr>children := c'\<rparr> = (merge_node n v)\<lparr>children := c'\<rparr>"
  by (intro node.equality)
     (simp_all add: merge_node_def map_add_same map_add_twice split: option.splits js.splits)

lemma merge_node_absorbs_self:
  "(merge_node (v\<lparr>children := c\<rparr>) v)\<lparr>children := c'\<rparr> = v\<lparr>children := c'\<rparr>"
  by (intro node.equality)
     (simp_all add: merge_node_def map_add_same map_add_twice split: option.splits js.splits)

lemma distinct_merge_deep:
  "distinct (map fst nodes) \<Longrightarrow> distinct (map fst (merge_deep nodes incoming))"
  unfolding merge_deep_def
  by (induction incoming arbitrary: nodes) (simp_all add: merge_entry_def distinct_update)

lemma merge_deep_keys:
  "fst ` set (merge_deep nodes incoming) = fst ` set nodes \<union> fst ` set incoming"
  unfolding merge_deep_def
  by (induction incoming arbitrary: nodes) (auto simp: merge_entry_def dom_update)

lemma merge_deep_entries:
  assumes "distinct (map fst incoming)" "distinct (map fst nodes)"
    and "(k, n1) \<in> set (merge_deep nodes incoming)" "map_of incoming k = Some v"
  shows "n1 = v \<or> (\<exists>n0. n1 = merge_node n0 v)"
proof -
  from assms(3) consider
    (old) n0 where "(k, n0) \<in> set nodes"
      "n1 = (case map_of incoming k of None \<Rightarrow> n0 | Some v \<Rightarrow> merge_node n0 v)"
    | (new) "(k, n1) \<in> set incoming"
    unfolding merge_deep_eq [OF assms(1,2)] by auto
  then show ?thesis
  proof cases
    case old
    then show ?thesis using assms(4) by auto
  next
    case new
    then show ?thesis using assms(1,4) by simp
  qed
qed

lemma merge_deep_again:
  assumes "distinct (map fst incoming)" "distinct (map fst nodes)"
  shows "clear_children (merge_deep (populateChildren (merge_deep nodes incoming)) incoming)
     = clear_children (merge_deep nodes incoming)"
proof -
  define m1 where "m1 = merge_deep nodes incoming"
  define C where "C = (\<lambda>cp. array_sort compare_index
        [child_of k n. (k, n) \<leftarrow> m1, key_of (parentContextPath n) = cp])"
  have d1: "distinct (map fst m1)"
    unfolding m1_def using assms(2) by (rule distinct_merge_deep)
  have r: "populateChildren m1 = map (\<lambda>(cp, node). (cp, node\<lparr>children := Some (C cp)\<rparr>)) m1"
    unfolding C_def by (rule populateChildren_eq [OF d1])
  have dr: "distinct (map fst (populateChildren m1))"
    using d1 by (simp add: populateChildren_keys)
  have keys: "fst ` set (populateChildren m1) = fst ` set m1"
    using populateChildren_keys [OF d1] by (metis set_map)
  have "fst ` set incoming \<subseteq> fst ` set (populateChildren m1)"
    unfolding keys by (simp add: m1_def merge_deep_keys)
  then have "filter (\<lambda>(k, v). k \<notin> fst ` set (populateChildren m1)) incoming = []"
    by (force simp: filter_empty_conv)
  then have "merge_deep (populateChildren m1) incoming =
      map (\<lambda>(k, n). (k, case map_of incoming k of None \<Rightarrow> n | Some v \<Rightarrow> merge_node n v))
        (populateChildren m1)"
    unfolding merge_deep_eq [OF assms(1) dr] by simp
  also have "\<dots> = map (\<lambda>(k, n). (k, case map_of incoming k of
        None \<Rightarrow> n\<lparr>children := Some (C k)\<rparr>
      | Some v \<Rightarrow> merge_node (n\<lparr>children := Some (C k)\<rparr>) v)) m1"
    unfolding r by (simp add: case_prod_unfold comp_def split: option.splits)
  finally have "clear_children (merge_deep (populateChildren m1) incoming) =
      map (\<lambda>(k, n). (k, (case map_of incoming k of
        None \<Rightarrow> n\<lparr>children := Some (C k)\<rparr>
      | Some v \<Rightarrow> merge_node (n\<lparr>children := Some (C k)\<rparr>) v)\<lparr>children := Some []\<rparr>)) m1"
    by (simp add: clear_children_def case_prod_unfold comp_def)
  also have "\<dots> = map (\<lambda>(k, n). (k, n\<lparr>children := Some []\<rparr>)) m1"
  proof (rule map_cong [OF refl])
    fix e assume e: "e \<in> set m1"
    obtain k n where kn: "e = (k, n)" by (cases e)
    show "(case e of (k, n) \<Rightarrow> (k, (case map_of incoming k of
        None \<Rightarrow> n\<lparr>children := Some (C k)\<rparr>
      | Some v \<Rightarrow> merge_node (n\<lparr>children := Some (C k)\<rparr>) v)\<lparr>children := Some []\<rparr>))
      = (case e of (k, n) \<Rightarrow> (k, n\<lparr>children := Some []\<rparr>))"
    proof (cases "map_of incoming k")
      case None
      then show ?thesis using kn by simp
    next
      case (Some v)
      from merge_deep_entries [OF assms, of k n v] e kn Some
      have "n = v \<or> (\<exists>n0. n = merge_node n0 v)" by (simp add: m1_def)
      then show ?thesis using kn Some
        by (auto simp: merge_node_absorbs_merged merge_node_absorbs_self)
    qed
  qed
  finally show ?thesis by (simp add: clear_children_def m1_def)
qed

section \<open>Rewriting uris\<close>

lemma set_in_node_present:
  assumes "distinct (map fst nodes)" "k \<in> fst ` set nodes"
  shows "set_in_node k f nodes = map (\<lambda>(k', n'). (k', if k' = k then f n' else n')) nodes"
proof -
  have "\<And>v. distinct (map fst nodes) \<Longrightarrow> map_of nodes k = Some v \<Longrightarrow>
      AList.update k (f v) nodes = map (\<lambda>(k', n'). (k', if k' = k then f n' else n')) nodes"
  proof (induction nodes)
    case Nil
    then show ?case by simp
  next
    case (Cons e nodes)
    obtain k0 n0 where e: "e = (k0, n0)" by (cases e)
    show ?case
    proof (cases "k0 = k")
      case True
      then have "k \<notin> fst ` set nodes" using Cons.prems e by auto
      then have "map (\<lambda>(k', n'). (k', if k' = k then f n' else n')) nodes = nodes"
        by (induction nodes) auto
      then show ?thesis using True e Cons.prems by simp
    next
      case False
      then show ?thesis using Cons e by simp
    qed
  qed
  moreover obtain v where "map_of nodes k = Some v"
    using assms(2) by (metis map_of_eq_None_iff not_Some_eq)
  ultimately show ?thesis using assms(1) by (simp add: set_in_node_def)
qed

lemma foldl_set_uri:
  assumes "distinct (map fst nodes)" "set (map fst ws) \<subseteq> fst ` set nodes" "distinct (map fst ws)"
  shows "foldl set_uri nodes ws =
     map (\<lambda>(k, n). (k, case map_of ws k of None \<Rightarrow> n | Some u \<Rightarrow> n\<lparr>uri := Some u\<rparr>)) nodes"
  using assms(2,3)
proof (induction ws rule: rev_induct)
  case Nil
  then show ?case by simp
next
  case (snoc w ws)
  obtain k u where w: "w = (k, u)" by (cases w)
  let ?done = "map (\<lambda>(k, n). (k, case map_of ws k of None \<Rightarrow> n | Some u \<Rightarrow> n\<lparr>uri := Some u\<rparr>)) nodes"
  have IH: "foldl set_uri nodes ws = ?done" using snoc by simp
  have keys: "map fst ?done = map fst nodes" by (simp add: case_prod_unfold comp_def)
  have k: "k \<in> fst ` set nodes" "map_of ws k = None"
    using snoc.prems w by (auto simp: map_of_eq_None_iff)
  have "foldl set_uri nodes (ws @ [w]) = set_in_node k (\<lambda>node. node\<lparr>uri := Some u\<rparr>) ?done"
    using IH w by (simp add: set_uri_def)
  also have "\<dots> = map (\<lambda>(k', n'). (k', if k' = k then n'\<lparr>uri := Some u\<rparr> else n')) ?done"
  proof (rule set_in_node_present)
    show "distinct (map fst ?done)" using assms(1) by (simp only: keys)
    have "fst ` set ?done = set (map fst ?done)" by (simp only: set_map)
    then show "k \<in> fst ` set ?done" using k(1) by (simp only: keys set_map)
  qed
  also have "\<dots> = map (\<lambda>(k', n). (k', case map_of (ws @ [w]) k' of None \<Rightarrow> n | Some u \<Rightarrow> n\<lparr>uri := Some u\<rparr>)) nodes"
    using k(2) w by (auto simp: map_add_def split: option.splits)
  finally show ?case .
qed

lemma map_filter_writes:
  assumes "\<forall>(k, n)\<in>set es. uri n \<noteq> None \<longrightarrow> contextPath n = Some k"
  shows "List.map_filter (\<lambda>(cp, node). uri_write old new node) es =
     List.map_filter (\<lambda>(cp, node). map_option (\<lambda>w. (cp, snd w)) (uri_write old new node)) es"
  using assms
  by (induction es) (auto simp: List.map_filter_simps uri_write_def split: option.splits if_splits)

lemma map_filter_keys_subset:
  "fst ` set (List.map_filter (\<lambda>(cp, node). map_option (\<lambda>w. (cp, g w)) (f node)) es) \<subseteq> fst ` set es"
  by (induction es) (auto simp: List.map_filter_simps split: option.splits)

lemma map_filter_keys_distinct:
  "distinct (map fst es) \<Longrightarrow>
   distinct (map fst (List.map_filter (\<lambda>(cp, node). map_option (\<lambda>w. (cp, g w)) (f node)) es))"
proof (induction es)
  case Nil
  then show ?case by (simp add: List.map_filter_simps)
next
  case (Cons e es)
  obtain k n where e: "e = (k, n)" by (cases e)
  have "k \<notin> fst ` set (List.map_filter (\<lambda>(cp, node). map_option (\<lambda>w. (cp, g w)) (f node)) es)"
    using map_filter_keys_subset [of g f es] Cons.prems e by auto
  then show ?case using Cons e
    by (auto simp: List.map_filter_simps split: option.splits)
qed

lemma map_of_map_filter:
  "distinct (map fst es) \<Longrightarrow> (k, n) \<in> set es \<Longrightarrow>
   map_of (List.map_filter (\<lambda>(cp, node). map_option (\<lambda>w. (cp, g w)) (f node)) es) k = map_option g (f n)"
proof (induction es)
  case Nil
  then show ?case by simp
next
  case (Cons e es)
  obtain k0 n0 where e: "e = (k0, n0)" by (cases e)
  show ?case
  proof (cases "k0 = k")
    case True
    then have n: "n0 = n" using Cons.prems e by (auto simp: image_iff)
    have "k \<notin> fst ` set es" using Cons.prems e True by auto
    then have "map_of (List.map_filter (\<lambda>(cp, node). map_option (\<lambda>w. (cp, g w)) (f node)) es) k = None"
      using map_filter_keys_subset [of g f es]
      by (auto simp: map_of_eq_None_iff)
    then show ?thesis using True e n
      by (auto simp: List.map_filter_simps split: option.splits)
  next
    case False
    then show ?thesis using Cons e
      by (auto simp: List.map_filter_simps split: option.splits)
  qed
qed

section \<open>String replacement\<close>

lemma starts_with_append: "starts_with (pat @ s) pat"
  by (induction pat) auto

lemma get_substitution_plain:
  "CHR ''$'' \<notin> set rep \<Longrightarrow> get_substitution matched before after rep = rep"
  by (induction matched before after rep rule: get_substitution.induct) auto

lemma replace_from_no_occurrence:
  "\<not> str_includes s pat \<Longrightarrow> replace_from acc s pat rep = acc @ s"
  by (induction s arbitrary: acc) auto

lemma replace_no_occurrence: "\<not> str_includes s pat \<Longrightarrow> replace s pat rep = s"
  by (simp add: replace_def replace_from_no_occurrence)

lemma replace_from_first_occurrence:
  assumes "\<forall>i<length before. \<not> starts_with (drop i (before @ pat @ after)) pat"
    and "CHR ''$'' \<notin> set rep"
  shows "replace_from acc (before @ pat @ after) pat rep = acc @ before @ rep @ after"
  using assms(1)
proof (induction before arbitrary: acc)
  case Nil
  show ?case
  proof (cases "pat @ after")
    case Nil
    then show ?thesis using assms(2) by (simp add: get_substitution_plain)
  next
    case (Cons c cs)
    have "starts_with (c # cs) pat"
      using starts_with_append [of pat after] Cons by simp
    moreover have "drop (length pat) (c # cs) = after"
      using Cons [symmetric] by simp
    ultimately show ?thesis
      using assms(2) Cons by (simp add: get_substitution_plain del: drop_Cons' )
  qed
next
  case (Cons b before)
  have "\<not> starts_with (b # before @ pat @ after) pat"
    using Cons.prems by (auto dest: spec [of _ 0])
  moreover have "\<forall>i<length before. \<not> starts_with (drop i (before @ pat @ after)) pat"
    using Cons.prems by (auto dest: spec [of _ "Suc i" for i])
  ultimately show ?case
    using Cons.IH [of "acc @ [b]"] by simp
qed

lemma replace_first_occurrence:
  assumes "\<forall>i<length before. \<not> starts_with (drop i (before @ pat @ after)) pat"
    and "CHR ''$'' \<notin> set rep"
  shows "replace (before @ pat @ after) pat rep = before @ rep @ after"
  using replace_from_first_occurrence [OF assms, of "[]"] by (simp add: replace_def)

section \<open>Deleting a key\<close>

lemma delete_append: "AList.delete k (xs @ ys) = AList.delete k xs @ AList.delete k ys"
  by (simp add: AList.delete_eq)

lemma remove_key_absent:
  assumes "cp \<notin> fst ` set nodes"
  shows "remove_key cp nodes = nodes"
proof -
  have "\<forall>e\<in>set nodes. fst e \<noteq> cp" using assms by blast
  then have dw: "dropWhile (\<lambda>e. fst e \<noteq> cp) nodes = []"
    by (simp add: dropWhile_eq_Nil_conv)
  show ?thesis unfolding remove_key_def Let_def dw by simp
qed

lemma remove_key_split:
  assumes "cp \<notin> fst ` set before" "fst e = cp"
  shows "remove_key cp (before @ e # rest) =
     (if rest = [] then before else before @ last rest # butlast rest)"
proof -
  have b: "\<forall>x\<in>set before. fst x \<noteq> cp" using assms(1) by blast
  have tw: "takeWhile (\<lambda>e. fst e \<noteq> cp) (before @ e # rest) = before"
    using b assms(2) by (simp add: takeWhile_append2)
  have dw: "dropWhile (\<lambda>e. fst e \<noteq> cp) (before @ e # rest) = e # rest"
    using b assms(2) by (simp add: dropWhile_append2)
  show ?thesis unfolding remove_key_def Let_def tw dw by simp
qed

lemma remove_key_delete:
  assumes "distinct (map fst nodes)"
  shows "set (remove_key cp nodes) = set (AList.delete cp nodes)
       \<and> distinct (map fst (remove_key cp nodes))"
proof (cases "cp \<in> fst ` set nodes")
  case False
  then show ?thesis using assms by (simp add: remove_key_absent)
next
  case True
  then obtain e where "e \<in> set nodes" and e: "fst e = cp" by auto
  then obtain before rest where split: "nodes = before @ e # rest"
    by (meson split_list)
  have keys: "cp \<notin> fst ` set before" "cp \<notin> fst ` set rest"
    using assms e unfolding split by auto
  have del: "AList.delete cp nodes = before @ rest"
    unfolding split delete_append using keys e by simp
  have d: "distinct (map fst (before @ rest))"
    using distinct_delete [OF assms, of cp] unfolding del .
  show ?thesis
  proof (cases "rest = []")
    case True
    then show ?thesis
      using remove_key_split [OF keys(1) e, of rest] d del
      unfolding split by simp
  next
    case False
    then have rest: "butlast rest @ [last rest] = rest" by simp
    have r: "remove_key cp nodes = before @ last rest # butlast rest"
      using remove_key_split [OF keys(1) e, of rest] False
      unfolding split by simp
    have "distinct (map fst (before @ butlast rest @ [last rest]))"
      using d by (simp only: rest)
    then have "distinct (map fst (before @ last rest # butlast rest))"
      by auto
    moreover have "set (before @ last rest # butlast rest) = set (before @ butlast rest @ [last rest])"
      by auto
    then have "set (before @ last rest # butlast rest) = set (before @ rest)"
      by (simp only: rest)
    ultimately show ?thesis
      unfolding r del by simp
  qed
qed

lemma map_of_remove_key:
  assumes "distinct (map fst nodes)"
  shows "map_of (remove_key cp nodes) = (map_of nodes)(cp := None)"
proof -
  have "map_of (remove_key cp nodes) = map_of (AList.delete cp nodes)"
    using remove_key_delete [OF assms, of cp] distinct_delete [OF assms, of cp]
    by (simp add: map_of_inject_set)
  then show ?thesis by (simp add: delete_conv')
qed

lemma distinct_remove_key:
  "distinct (map fst nodes) \<Longrightarrow> distinct (map fst (remove_key cp nodes))"
  using remove_key_delete by blast

lemma remove_key_notin:
  "distinct (map fst nodes) \<Longrightarrow> cp \<notin> fst ` set (remove_key cp nodes)"
  using remove_key_delete [of nodes cp] delete_notin_dom [of cp nodes] by simp

section \<open>Arithmetic on numbers\<close>




section \<open>The indices after a move\<close>









section \<open>Failing branches of the reducer\<close>

lemma reducer_returns:
  "(\<forall>payload. a = INIT payload \<longrightarrow> initByContextPath payload \<noteq> None) \<Longrightarrow>
   \<exists>state'. reducer pncp a state = Inr state'"
  by (cases a) (auto simp: reduce_init_def split: option.splits)

section \<open>Claims\<close>







text \<open>
  C3. The state with the siblings A (index 1), B (index 2) and C (index 3) under P, in
  this order of keys, and a helper that gives P as the base node of B: \<open>MOVE\<close> of A
  \<open>after\<close> B gives A the index 3 and the parent P, and the children of P are B, A, C.
\<close>

theorem move_after_example:
  assumes "pncp ''/p/b@live'' = Val ''/p@live''"
  shows "reducer pncp (MOVE ''/p/a@live'' ''/p/b@live'' ''after'') (store_of siblings) =
     Inr (store_of
       [(''/p@live'', (sample_node ''/p@live'' Undefined 0)
           \<lparr>children := Some [child_ref ''/p/b@live'' 2, child_ref ''/p/a@live'' 3,
                               child_ref ''/p/c@live'' 3]\<rparr>),
        (''/p/a@live'', (sample_node ''/p/a@live'' (Val ''/p@live'') 3)\<lparr>children := Some []\<rparr>),
        (''/p/b@live'', (sample_node ''/p/b@live'' (Val ''/p@live'') 2)\<lparr>children := Some []\<rparr>),
        (''/p/c@live'', (sample_node ''/p/c@live'' (Val ''/p@live'') 3)\<lparr>children := Some []\<rparr>)])"
proof -
  let ?m2 = "[(''/p@live'', sample_node ''/p@live'' Undefined 0),
      (''/p/a@live'', sample_node ''/p/a@live'' (Val ''/p@live'') 3),
      (''/p/b@live'', sample_node ''/p/b@live'' (Val ''/p@live'') 2),
      (''/p/c@live'', sample_node ''/p/c@live'' (Val ''/p@live'') 3)]"
  have d: "distinct (map fst ?m2)" by simp
  have pc: "populateChildren ?m2 =
       [(''/p@live'', (sample_node ''/p@live'' Undefined 0)
           \<lparr>children := Some [child_ref ''/p/b@live'' 2, child_ref ''/p/a@live'' 3,
                               child_ref ''/p/c@live'' 3]\<rparr>),
        (''/p/a@live'', (sample_node ''/p/a@live'' (Val ''/p@live'') 3)\<lparr>children := Some []\<rparr>),
        (''/p/b@live'', (sample_node ''/p/b@live'' (Val ''/p@live'') 2)\<lparr>children := Some []\<rparr>),
        (''/p/c@live'', (sample_node ''/p/c@live'' (Val ''/p@live'') 3)\<lparr>children := Some []\<rparr>)]"
    unfolding populateChildren_eq [OF d]
    by (simp add: sample_node_def child_of_def child_ref_def array_sort_def compare_index_def)
  have "set_in_node ''/p/a@live'' (\<lambda>node. node\<lparr>parentContextPath := Val ''/p@live''\<rparr>)
          (set_in_node ''/p/a@live'' (\<lambda>node. node\<lparr>index := Val (Num 3)\<rparr>) siblings) = ?m2"
    by (simp add: set_in_node_def siblings_def sample_node_def)
  then show ?thesis
    using assms pc
    by (simp add: reduce_move_def store_of_def siblings_def sample_node_def round_double_def)
qed

theorem move_after_example_witness:
  "map_of (byContextPath (reduce_move (\<lambda>cp. Val ''/p@live'') ''/p/a@live'' ''/p/b@live'' ''after''
      (store_of siblings))) ''/p@live'' =
     Some ((sample_node ''/p@live'' Undefined 0)
           \<lparr>children := Some [child_ref ''/p/b@live'' 2, child_ref ''/p/a@live'' 3,
                               child_ref ''/p/c@live'' 3]\<rparr>)"
  using move_after_example [of "\<lambda>cp. Val ''/p@live''"]
  by (simp add: store_of_def)

text \<open>
  C4, amended. On a node map with distinct keys in which every record with a uri carries
  its own key as \<open>contextPath\<close>, \<open>UPDATE_URI\<close> rewrites the uri of exactly the nodes whose
  uri is not empty and contains \<open>oldUriFragment\<close> followed by \<open>/\<close> or by \<open>@\<close>. The new uri is
  the result of JavaScript's \<open>replace\<close> with a string pattern, applied for \<open>@\<close> and then
  for \<open>/\<close>: for each separator the first occurrence of the old fragment with that
  separator is replaced, and no other (\<open>replace_first_occurrence\<close>). Every other record,
  and every other attribute, is unchanged.
\<close>

theorem update_uri_rewrites:
  assumes "distinct (map fst (byContextPath state))"
    and "\<forall>(k, n)\<in>set (byContextPath state). uri n \<noteq> None \<longrightarrow> contextPath n = Some k"
    and "reducer pncp (UPDATE_URI old new) state = Inr state'"
  shows "byContextPath state' =
     map (\<lambda>(k, n). (k,
        case uri n of
          None \<Rightarrow> n
        | Some u \<Rightarrow>
            if u \<noteq> [] \<and> (str_includes u (old @ ''/'') \<or> str_includes u (old @ ''@''))
            then n\<lparr>uri := Some (replace (replace u (old @ ''@'') (new @ ''@''))
                                   (old @ ''/'') (new @ ''/''))\<rparr>
            else n)) (byContextPath state)"
proof -
  let ?m = "byContextPath state"
  let ?ws = "List.map_filter (\<lambda>(cp, node). map_option (\<lambda>w. (cp, snd w)) (uri_write old new node)) ?m"
  have ws: "List.map_filter (\<lambda>(cp, node). uri_write old new node) ?m = ?ws"
    using assms(2) by (rule map_filter_writes)
  have "foldl set_uri ?m ?ws =
     map (\<lambda>(k, n). (k, case map_of ?ws k of None \<Rightarrow> n | Some u \<Rightarrow> n\<lparr>uri := Some u\<rparr>)) ?m"
    using map_filter_keys_subset [of snd "uri_write old new" ?m]
      map_filter_keys_distinct [OF assms(1), of snd "uri_write old new"]
    by (intro foldl_set_uri [OF assms(1)]) simp_all
  also have "\<dots> = map (\<lambda>(k, n). (k, case map_option snd (uri_write old new n) of
      None \<Rightarrow> n | Some u \<Rightarrow> n\<lparr>uri := Some u\<rparr>)) ?m"
    using map_of_map_filter [OF assms(1), of _ _ snd "uri_write old new"]
    by (intro map_cong) auto
  finally have "byContextPath (reduce_update_uri old new state) =
     map (\<lambda>(k, n). (k,
        case uri n of
          None \<Rightarrow> n
        | Some u \<Rightarrow>
            if u \<noteq> [] \<and> (str_includes u (old @ ''/'') \<or> str_includes u (old @ ''@''))
            then n\<lparr>uri := Some (replace (replace u (old @ ''@'') (new @ ''@''))
                                   (old @ ''/'') (new @ ''/''))\<rparr>
            else n)) ?m"
    unfolding reduce_update_uri_def Let_def ws
    by (auto simp: uri_write_def split: option.splits intro!: map_cong)
  then show ?thesis using assms(3) by auto
qed

theorem update_uri_rewrites_witness:
  "map (uri \<circ> snd) (byContextPath (reduce_update_uri ''shop/shoes'' ''shop/sneakers'' (store_of shop_nodes)))
     = [Some ''/shop/sneakers@live'', Some ''/shop/sneakers/red@live'', Some ''/shop/shoeshine@live'']"
proof -
  have d: "distinct (map fst (byContextPath (store_of shop_nodes)))"
    by (simp add: store_of_def shop_nodes_def)
  have c: "\<forall>(k, n)\<in>set (byContextPath (store_of shop_nodes)). uri n \<noteq> None \<longrightarrow> contextPath n = Some k"
    by (simp add: store_of_def shop_nodes_def document_node_def sample_node_def)
  have r: "reducer parent_p (UPDATE_URI ''shop/shoes'' ''shop/sneakers'') (store_of shop_nodes)
      = Inr (reduce_update_uri ''shop/shoes'' ''shop/sneakers'' (store_of shop_nodes))"
    by simp
  show ?thesis
    unfolding update_uri_rewrites [OF d c r]
    by (simp add: store_of_def shop_nodes_def document_node_def sample_node_def replace_def)
qed

text \<open>
  C4 as stated fails where the old fragment occurs twice with the same separator: the
  uri \<open>/shop/shop/x@live\<close> becomes \<open>/store/shop/x@live\<close>, which still contains \<open>shop/\<close>.
\<close>

theorem update_uri_first_occurrence_only:
  "map (uri \<circ> snd) (byContextPath (reduce_update_uri ''shop'' ''store'' (store_of nested_shop_nodes)))
     = [Some ''/store/shop/x@live'']
   \<and> str_includes ''/store/shop/x@live'' ''shop/''"
  by (simp add: reduce_update_uri_def store_of_def nested_shop_nodes_def document_node_def
      sample_node_def List.map_filter_def uri_write_def replace_def set_uri_def set_in_node_def)

text \<open>
  C5. \<open>ADD\<close> does not replace the record of a key of the payload by the payload's record:
  an attribute that the stored record has and the incoming one has not survives the
  merge. Here the stored record has a uri and the incoming one has none.
\<close>

theorem add_keeps_stale_attribute:
  "reducer pncp (ADD [(''/sites/doc@live'', sample_node ''/sites/doc@live'' Undefined 4)])
       (store_of [(''/sites/doc@live'', document_node ''/sites/doc@live'' ''/doc@live'')])
     = Inr (store_of [(''/sites/doc@live'',
         (sample_node ''/sites/doc@live'' Undefined 4)\<lparr>uri := Some ''/doc@live'', children := Some []\<rparr>)])"
proof -
  let ?m1 = "[(''/sites/doc@live'', (sample_node ''/sites/doc@live'' Undefined 4)\<lparr>uri := Some ''/doc@live''\<rparr>)]"
  have d: "distinct (map fst ?m1)" by simp
  have "merge_deep [(''/sites/doc@live'', document_node ''/sites/doc@live'' ''/doc@live'')]
      [(''/sites/doc@live'', json_node (sample_node ''/sites/doc@live'' Undefined 4))] = ?m1"
    by (simp add: merge_deep_def merge_entry_def merge_node_def json_node_def document_node_def
        sample_node_def)
  moreover have "populateChildren ?m1 = [(''/sites/doc@live'',
         (sample_node ''/sites/doc@live'' Undefined 4)\<lparr>uri := Some ''/doc@live'', children := Some []\<rparr>)]"
    unfolding populateChildren_eq [OF d]
    by (simp add: sample_node_def array_sort_def)
  ultimately show ?thesis
    by (simp add: reduce_add_def store_of_def)
qed

text \<open>
  C6. \<open>ADD\<close> is idempotent: on a store and a payload that are objects (distinct keys), the
  store that \<open>ADD\<close> returns is the store that a second \<open>ADD\<close> of the same payload returns.
\<close>

theorem add_idempotent:
  assumes "distinct (map fst (byContextPath state))"
    and "distinct (map fst nodeMap)"
    and "reducer pncp (ADD nodeMap) state = Inr state'"
  shows "reducer pncp (ADD nodeMap) state' = Inr state'"
proof -
  define incoming where "incoming = map (\<lambda>(cp, node). (cp, json_node node)) nodeMap"
  define m1 where "m1 = merge_deep (byContextPath state) incoming"
  have d: "distinct (map fst incoming)"
    using assms(2) by (simp add: incoming_def case_prod_unfold comp_def)
  have s': "state' = state\<lparr>byContextPath := populateChildren m1\<rparr>"
    using assms(3) by (simp add: reduce_add_def m1_def incoming_def)
  have "populateChildren (merge_deep (populateChildren m1) incoming) = populateChildren m1"
    unfolding m1_def
    by (intro populateChildren_cong merge_deep_again [OF d assms(1)])
  then have "reduce_add nodeMap state' = state'"
    by (simp add: reduce_add_def s' incoming_def)
  then show ?thesis by simp
qed

theorem add_idempotent_witness:
  "reducer parent_p (ADD sample_payload) (reduce_add sample_payload (store_of siblings))
     = Inr (reduce_add sample_payload (store_of siblings))"
proof -
  have d: "distinct (map fst (byContextPath (store_of siblings)))"
    by (simp add: store_of_def siblings_def)
  have p: "distinct (map fst sample_payload)"
    by (simp add: sample_payload_def)
  have r: "reducer parent_p (ADD sample_payload) (store_of siblings)
      = Inr (reduce_add sample_payload (store_of siblings))"
    by simp
  show ?thesis by (rule add_idempotent [OF d p r])
qed

text \<open>
  C7, amended. An action other than \<open>INIT\<close>, \<open>ADD\<close>, \<open>SWITCH_DIMENSION\<close> and \<open>REMOVE\<close> deletes
  no key of \<open>byContextPath\<close>: the keys afterwards are the keys before and the context paths
  under which the action writes (\<open>nodeToBeMoved\<close> of \<open>MOVE\<close>, the path of \<open>HIDE\<close> and \<open>SHOW\<close>,
  the \<open>contextPath\<close> attributes of the nodes \<open>UPDATE_URI\<close> rewrites; none for the others).
  Where these paths are keys of the map already, the keys and their order are unchanged.
\<close>

theorem keys_kept_or_written:
  assumes "\<not> creates_or_destroys a"
    and "distinct (map fst (byContextPath state))"
    and "reducer pncp a state = Inr state'"
  shows "set (map fst (byContextPath state')) =
           set (map fst (byContextPath state)) \<union> set (written_paths a state)
       \<and> (set (written_paths a state) \<subseteq> set (map fst (byContextPath state)) \<longrightarrow>
            map fst (byContextPath state') = map fst (byContextPath state))"
proof (cases a)
  case (MOVE nodeToBeMoved targetNode position)
  obtain f where s': "byContextPath state' =
      populateChildren (set_in_node nodeToBeMoved f (byContextPath state))"
    using assms(3) MOVE
    by (auto simp: reduce_move_def Let_def set_in_node_twice)
  have "map fst (byContextPath state') = map fst (set_in_node nodeToBeMoved f (byContextPath state))"
    unfolding s' using assms(2) by (intro populateChildren_keys distinct_set_in_node)
  then have "map fst (byContextPath state') =
      (if nodeToBeMoved \<in> set (map fst (byContextPath state)) then map fst (byContextPath state)
       else map fst (byContextPath state) @ [nodeToBeMoved])"
    by (simp only: set_in_node_keys)
  then show ?thesis
    unfolding MOVE written_paths.simps by (rule keys_after_write)
next
  case (HIDE cp)
  then have "byContextPath state' = set_in_node cp
      (\<lambda>node. node\<lparr>properties := Some ((case properties node of None \<Rightarrow> Map.empty | Some ps \<Rightarrow> ps)
         (''_hidden'' \<mapsto> PBool True))\<rparr>) (byContextPath state)"
    using assms(3) by (auto simp: set_hidden_def)
  then have "map fst (byContextPath state') =
      (if cp \<in> set (map fst (byContextPath state)) then map fst (byContextPath state)
       else map fst (byContextPath state) @ [cp])"
    by (simp only: set_in_node_keys)
  then show ?thesis
    unfolding HIDE written_paths.simps by (rule keys_after_write)
next
  case (SHOW cp)
  then have "byContextPath state' = set_in_node cp
      (\<lambda>node. node\<lparr>properties := Some ((case properties node of None \<Rightarrow> Map.empty | Some ps \<Rightarrow> ps)
         (''_hidden'' \<mapsto> PBool False))\<rparr>) (byContextPath state)"
    using assms(3) by (auto simp: set_hidden_def)
  then have "map fst (byContextPath state') =
      (if cp \<in> set (map fst (byContextPath state)) then map fst (byContextPath state)
       else map fst (byContextPath state) @ [cp])"
    by (simp only: set_in_node_keys)
  then show ?thesis
    unfolding SHOW written_paths.simps by (rule keys_after_write)
next
  case (UPDATE_URI oldUriFragment newUriFragment)
  define ws where "ws = List.map_filter (\<lambda>(cp, node). uri_write oldUriFragment newUriFragment node)
      (byContextPath state)"
  have s': "byContextPath state' = foldl set_uri (byContextPath state) ws"
    using assms(3) UPDATE_URI by (auto simp: reduce_update_uri_def Let_def ws_def)
  have w: "written_paths a state = map fst ws"
    using UPDATE_URI by (simp add: ws_def)
  show ?thesis
    unfolding s' w
    using foldl_set_uri_keyset [of "byContextPath state" ws]
      foldl_set_uri_keys [of ws "byContextPath state"]
    by blast
qed (use assms in auto)

theorem keys_kept_or_written_witness:
  "map fst (byContextPath (set_hidden True ''/p/a@live'' (store_of siblings)))
     = [''/p@live'', ''/p/a@live'', ''/p/b@live'', ''/p/c@live'']"
proof -
  have a: "\<not> creates_or_destroys (HIDE ''/p/a@live'')" by simp
  have d: "distinct (map fst (byContextPath (store_of siblings)))"
    by (simp add: store_of_def siblings_def)
  have r: "reducer parent_p (HIDE ''/p/a@live'') (store_of siblings)
      = Inr (set_hidden True ''/p/a@live'' (store_of siblings))"
    by simp
  show ?thesis
    using keys_kept_or_written [OF a d r]
    by (simp add: store_of_def siblings_def)
qed

text \<open>
  C7 as stated fails for a context path that is not in the map: \<open>HIDE\<close> of such a path
  adds a record that has the \<open>properties\<close> attribute only.
\<close>

theorem hide_absent_path_adds_key:
  "reducer parent_p (HIDE ''/ghost@live'') (store_of siblings)
     = Inr (store_of (siblings @
         [(''/ghost@live'', empty_node\<lparr>properties := Some [''_hidden'' \<mapsto> PBool True]\<rparr>)]))"
  by (simp add: set_hidden_def set_in_node_def store_of_def siblings_def empty_node_def)

text \<open>
  C8. \<open>REMOVE\<close> of P on a store whose node map has distinct keys returns a store in which
  nothing has changed but the node map, which has lost the key P and no other: every
  other key has the record it had, children list included (the builder is not run). So
  a record C with the parent P is read under its context path as before, and in the
  next result of the builder C is in no children list.
\<close>

theorem remove_does_not_cascade:
  assumes "distinct (map fst (byContextPath state))"
  shows "\<exists>state'. reducer pncp (REMOVE P) state = Inr state'
       \<and> state'\<lparr>byContextPath := byContextPath state\<rparr> = state
       \<and> map_of (byContextPath state') = (map_of (byContextPath state))(P := None)
       \<and> (\<forall>C c. map_of (byContextPath state) C = Some c \<and> parentContextPath c = Val P \<and> C \<noteq> P \<longrightarrow>
             map_of (byContextPath state') C = Some c
             \<and> (\<forall>(k, n)\<in>set (populateChildren (byContextPath state')). \<forall>cs.
                   children n = Some cs \<longrightarrow> C \<notin> ref_contextPath ` set cs))"
proof -
  define state' where "state' = reduce_remove P state"
  have s': "byContextPath state' = remove_key P (byContextPath state)"
    by (simp add: state'_def reduce_remove_def)
  have r: "reducer pncp (REMOVE P) state = Inr state'"
    by (simp add: state'_def)
  have rest: "state'\<lparr>byContextPath := byContextPath state\<rparr> = state"
    by (simp add: state'_def reduce_remove_def)
  have m: "map_of (byContextPath state') = (map_of (byContextPath state))(P := None)"
    unfolding s' using assms by (rule map_of_remove_key)
  have d: "distinct (map fst (byContextPath state'))"
    unfolding s' using assms by (rule distinct_remove_key)
  have child: "map_of (byContextPath state') C = Some c
      \<and> (\<forall>(k, n)\<in>set (populateChildren (byContextPath state')). \<forall>cs.
            children n = Some cs \<longrightarrow> C \<notin> ref_contextPath ` set cs)"
    if c: "map_of (byContextPath state) C = Some c" and p: "parentContextPath c = Val P"
      and n: "C \<noteq> P" for C c
  proof -
    have c': "map_of (byContextPath state') C = Some c"
      unfolding m using c n by simp
    then have "(C, c) \<in> set (byContextPath state')"
      by (rule map_of_SomeD)
    moreover have "key_of (parentContextPath c) \<notin> fst ` set (byContextPath state')"
      unfolding s' using p assms by (simp add: remove_key_notin)
    ultimately have "C \<notin> ref_contextPath ` set cs"
      if "(k, n) \<in> set (populateChildren (byContextPath state'))" "children n = Some cs" for k n cs
      using populateChildren_orphan [OF d] that by blast
    with c' show ?thesis by blast
  qed
  from r rest m child show ?thesis by blast
qed

theorem remove_does_not_cascade_witness:
  "map_of (byContextPath (reduce_remove ''/p@live'' (store_of siblings))) ''/p/a@live''
     = Some (sample_node ''/p/a@live'' (Val ''/p@live'') 1)
   \<and> map_of (byContextPath (reduce_remove ''/p@live'' (store_of siblings))) ''/p@live'' = None
   \<and> map_of (byContextPath (reduce_remove ''/p/a@live'' (store_of siblings))) ''/p/a@live'' = None
   \<and> map_of (byContextPath (reduce_remove ''/p/a@live'' (store_of siblings))) ''/p/b@live''
     = Some (sample_node ''/p/b@live'' (Val ''/p@live'') 2)"
proof -
  have d: "distinct (map fst (byContextPath (store_of siblings)))"
    by (simp add: store_of_def siblings_def)
  have c: "map_of (byContextPath (store_of siblings)) ''/p/a@live''
        = Some (sample_node ''/p/a@live'' (Val ''/p@live'') 1)
      \<and> parentContextPath (sample_node ''/p/a@live'' (Val ''/p@live'') 1) = Val ''/p@live''
      \<and> ''/p/a@live'' \<noteq> ''/p@live''"
    by (simp add: store_of_def siblings_def sample_node_def)
  from remove_does_not_cascade [OF d, of parent_p "''/p@live''"] c
  have "map_of (byContextPath (reduce_remove ''/p@live'' (store_of siblings))) ''/p/a@live''
        = Some (sample_node ''/p/a@live'' (Val ''/p@live'') 1)"
    and "map_of (byContextPath (reduce_remove ''/p@live'' (store_of siblings)))
        = (map_of (byContextPath (store_of siblings)))(''/p@live'' := None)"
    by auto
  moreover from remove_does_not_cascade [OF d, of parent_p "''/p/a@live''"]
  have "map_of (byContextPath (reduce_remove ''/p/a@live'' (store_of siblings)))
        = (map_of (byContextPath (store_of siblings)))(''/p/a@live'' := None)"
    by auto
  ultimately show ?thesis
    by (simp add: store_of_def siblings_def)
qed

text \<open>
  C9. \<open>INIT\<close> throws when the payload has no node map under \<open>cr.nodes.byContextPath\<close>: the
  builder reads the keys of \<open>undefined\<close>.
\<close>

theorem init_without_node_map_throws:
  "reducer pncp (INIT \<lparr>initByContextPath = None, initSiteNode = site\<rparr>) state = Inl TypeError"
  by (simp add: reduce_init_def)

text \<open>
  C10. \<open>MOVE\<close> of a node that is not the target is idempotent: on a store whose node map
  has distinct keys, the store that \<open>MOVE\<close> returns is the store that the same \<open>MOVE\<close>
  returns again.
\<close>

theorem move_idempotent:
  assumes "distinct (map fst (byContextPath state))"
    and "nodeToBeMoved \<noteq> targetNode"
    and "reducer pncp (MOVE nodeToBeMoved targetNode position) state = Inr state'"
  shows "reducer pncp (MOVE nodeToBeMoved targetNode position) state' = Inr state'"
proof -
  let ?ti = "\<lambda>nodes :: nodemap. case map_of nodes targetNode of
      None \<Rightarrow> Undefined | Some target \<Rightarrow> index target"
  define ni where "ni = (\<lambda>nodes :: nodemap. if position = ''into'' then Num 9007199254740991
             else if position = ''before'' then js_minus_one (?ti nodes) else js_plus_one (?ti nodes))"
  define base where "base = (if position = ''into'' then Val targetNode else pncp targetNode)"
  define F where "F = (\<lambda>(nodes :: nodemap) (node :: node). node\<lparr>index := Val (ni nodes), parentContextPath := base\<rparr>)"
  have move: "reduce_move pncp nodeToBeMoved targetNode position s =
      s\<lparr>byContextPath := populateChildren (set_in_node nodeToBeMoved (F (byContextPath s)) (byContextPath s))\<rparr>" for s
    by (simp add: reduce_move_def Let_def set_in_node_twice comp_def ni_def base_def F_def)
  define m where "m = byContextPath state"
  define m2 where "m2 = set_in_node nodeToBeMoved (F m) m"
  define r where "r = populateChildren m2"
  have s': "state' = state\<lparr>byContextPath := r\<rparr>"
    using assms(3) by (simp add: move r_def m2_def m_def)
  have d: "distinct (map fst m2)"
    unfolding m2_def m_def using assms(1) by (rule distinct_set_in_node)
  have "map_of r targetNode = map_option (\<lambda>n. n\<lparr>children := Some (array_sort compare_index
        [child_of k' n'. (k', n') \<leftarrow> m2, key_of (parentContextPath n') = targetNode])\<rparr>) (map_of m targetNode)"
    unfolding r_def populateChildren_map_of [OF d]
    using assms(2) by (simp add: m2_def map_of_set_in_node)
  then have "?ti r = ?ti m"
    by (cases "map_of m targetNode") simp_all
  then have F: "F r = F m"
    by (simp add: F_def ni_def)
  obtain n0 where n0: "map_of m2 nodeToBeMoved = Some n0" "index n0 = Val (ni m)"
    "parentContextPath n0 = base"
    by (simp add: m2_def map_of_set_in_node F_def)
  then obtain n1 where n1: "map_of r nodeToBeMoved = Some n1" "index n1 = Val (ni m)"
    "parentContextPath n1 = base"
    unfolding r_def populateChildren_map_of [OF d]
    by auto
  have "F m n1 = n1"
    using n1(2,3) by (simp add: F_def)
  have "set_in_node nodeToBeMoved (F r) r = r"
    using n1(1) F \<open>F m n1 = n1\<close> by (simp add: set_in_node_def update_triv)
  moreover have "populateChildren r = r"
    unfolding r_def using d by (rule populateChildren_idem)
  ultimately have "reduce_move pncp nodeToBeMoved targetNode position state' = state'"
    unfolding move by (simp add: s')
  then show ?thesis by simp
qed

theorem move_idempotent_witness:
  "reducer parent_p (MOVE ''/p/a@live'' ''/p/b@live'' ''after'')
       (reduce_move parent_p ''/p/a@live'' ''/p/b@live'' ''after'' (store_of siblings))
     = Inr (reduce_move parent_p ''/p/a@live'' ''/p/b@live'' ''after'' (store_of siblings))"
proof -
  have d: "distinct (map fst (byContextPath (store_of siblings)))"
    by (simp add: store_of_def siblings_def)
  have n: "''/p/a@live'' \<noteq> ''/p/b@live''" by simp
  have r: "reducer parent_p (MOVE ''/p/a@live'' ''/p/b@live'' ''after'') (store_of siblings)
      = Inr (reduce_move parent_p ''/p/a@live'' ''/p/b@live'' ''after'' (store_of siblings))"
    by simp
  show ?thesis by (rule move_idempotent [OF d n r])
qed

end
